theory Spec2Isabelle
  imports Complex_Main "HOL-Library.Sublist"
begin

section \<open>Characters and strings\<close>

text \<open>
  A Python \<open>str\<close> is modelled as a \<open>string\<close>: a list of 8-bit characters, each read as the
  code point of the same number (U+0000 to U+00FF). The character classes below are the
  ones Python's \<open>re\<close> and \<open>str\<close> use on that range.
\<close>

definition code :: "char \<Rightarrow> nat" where
  "code c = of_char c"

text \<open>\<open>\s\<close> in a \<open>str\<close> pattern and \<open>str.strip()\<close>: the characters with \<open>str.isspace()\<close>.\<close>

definition is_space :: "char \<Rightarrow> bool" where
  "is_space c = ((9 \<le> code c \<and> code c \<le> 13) \<or> (28 \<le> code c \<and> code c \<le> 32)
                 \<or> code c = 133 \<or> code c = 160)"

text \<open>The class \<open>[A-Z]\<close>.\<close>

definition is_upper :: "char \<Rightarrow> bool" where
  "is_upper c = (65 \<le> code c \<and> code c \<le> 90)"

text \<open>The class \<open>[a-zA-Z]\<close>.\<close>

definition is_alpha :: "char \<Rightarrow> bool" where
  "is_alpha c = (is_upper c \<or> (97 \<le> code c \<and> code c \<le> 122))"

text \<open>
  \<open>str.lower()\<close>, as far as the program uses it: on a string of letters \<open>[a-zA-Z]\<close>.
\<close>

definition lower_char :: "char \<Rightarrow> char" where
  "lower_char c = (if is_upper c then char_of (code c + 32) else c)"

definition lower :: "string \<Rightarrow> string" where
  "lower s = map lower_char s"

text \<open>\<open>re.sub(r"[^a-zA-Z]", "", s)\<close>: every character outside the class is deleted.\<close>

definition sub_non_alpha :: "string \<Rightarrow> string" where
  "sub_non_alpha s = filter is_alpha s"

text \<open>\<open>str.strip()\<close>: leading and trailing whitespace removed.\<close>

definition lstrip :: "string \<Rightarrow> string" where
  "lstrip s = dropWhile is_space s"

definition rstrip :: "string \<Rightarrow> string" where
  "rstrip s = rev (dropWhile is_space (rev s))"

definition strip :: "string \<Rightarrow> string" where
  "strip s = rstrip (lstrip s)"

section \<open>Syllable estimator\<close>

text \<open>
  \<open>count_syllables\<close> asks the library \<open>syllapy\<close> first. The library is not part of the
  program: its function \<open>syllapy.count\<close> is the parameter \<open>syllapy_count\<close>, a count per
  word, \<open>0\<close> when it has none (Python tests the count for truth).
\<close>

text \<open>The loop of the vowel-group fallback, with its two variables \<open>cnt\<close> and \<open>prev_vowel\<close>.\<close>

fun vowel_groups :: "nat \<Rightarrow> bool \<Rightarrow> string \<Rightarrow> nat" where
  "vowel_groups cnt prev_vowel [] = cnt"
| "vowel_groups cnt prev_vowel (ch # rest) =
     (let is_vowel = (ch \<in> set ''aeiouy'')
      in vowel_groups (if is_vowel \<and> \<not> prev_vowel then cnt + 1 else cnt) is_vowel rest)"

definition endswith_e :: "string \<Rightarrow> bool" where
  "endswith_e s = (s \<noteq> [] \<and> last s = CHR ''e'')"

definition count_syllables :: "(string \<Rightarrow> nat) \<Rightarrow> string \<Rightarrow> nat" where
  "count_syllables syllapy_count word =
     (let clean = lower (sub_non_alpha word) in
      if clean = [] then 0
      else let n = syllapy_count clean in
        if n \<noteq> 0 then n
        else let cnt = vowel_groups 0 False clean;
                 cnt' = (if endswith_e clean \<and> 1 < cnt then cnt - 1 else cnt)
             in max 1 cnt')"

section \<open>Sentence segmenter\<close>

text \<open>
  The separator pattern of \<open>split_into_sentences\<close> is
  \<^verbatim>\<open>(?<=[.!?])\s+(?=[A-Z"'])\<close>. A position of the text is given by the character before it
  (\<open>None\<close> at the start) and the text from it on.
\<close>

definition lookbehind :: "char option \<Rightarrow> bool" where
  "lookbehind prev = (case prev of None \<Rightarrow> False | Some p \<Rightarrow> p \<in> set ''.!?'')"

definition lookahead :: "string \<Rightarrow> bool" where
  "lookahead rest =
     (case rest of [] \<Rightarrow> False | c # _ \<Rightarrow> is_upper c \<or> c = CHR 0x22 \<or> c = CHR 0x27)"

text \<open>
  The candidates of a greedy repetition \<open>+\<close> over a run of \<open>k\<close> characters, in the order the
  matcher tries them: the whole run first, then one character less, down to one.
\<close>

definition greedy :: "nat \<Rightarrow> nat list" where
  "greedy k = rev [1..<Suc k]"

text \<open>The length of the separator matched at a position, if one matches there.\<close>

definition sep_match :: "char option \<Rightarrow> string \<Rightarrow> nat option" where
  "sep_match prev s =
     (if lookbehind prev
      then find (\<lambda>n. lookahead (drop n s)) (greedy (length (takeWhile is_space s)))
      else None)"

text \<open>
  \<open>re.split(pattern, s)\<close>: the text is scanned from the left; \<open>cur\<close> is the part read since
  the last separator. At a separator the part is closed and the scan goes on behind the
  separator; elsewhere the character joins the part.
\<close>

function re_split_sentences :: "char option \<Rightarrow> string \<Rightarrow> string \<Rightarrow> string list" where
  "re_split_sentences prev cur [] = [cur]"
| "re_split_sentences prev cur (c # cs) =
     (case sep_match prev (c # cs) of
        Some n \<Rightarrow> cur # re_split_sentences (Some ((c # cs) ! (n - 1))) [] (drop n (c # cs))
      | None \<Rightarrow> re_split_sentences (Some c) (cur @ [c]) cs)"
  by pat_completeness auto
termination
proof (relation "measure (\<lambda>(prev, cur, s). length s)")
  fix prev :: "char option" and cur :: string and c cs n
  assume "sep_match prev (c # cs) = Some n"
  then have "\<exists>i<length (greedy (length (takeWhile is_space (c # cs)))).
      n = greedy (length (takeWhile is_space (c # cs))) ! i"
    by (auto simp: sep_match_def find_Some_iff split: if_splits)
  then have "n \<in> set (greedy (length (takeWhile is_space (c # cs))))"
    using nth_mem by blast
  then have "1 \<le> n"
    by (auto simp: greedy_def)
  then show "((Some ((c # cs) ! (n - 1)), [], drop n (c # cs)), prev, cur, c # cs)
      \<in> measure (\<lambda>(prev, cur, s). length s)"
    by simp
qed simp_all

definition split_into_sentences :: "string \<Rightarrow> string list" where
  "split_into_sentences txt =
     (let parts = re_split_sentences None [] (strip txt)
      in map strip (filter (\<lambda>p. strip p \<noteq> []) parts))"

text \<open>\<open>sep.join(parts)\<close>.\<close>

fun join :: "string \<Rightarrow> string list \<Rightarrow> string" where
  "join sep [] = []"
| "join sep [p] = p"
| "join sep (p # q # ps) = p @ sep @ join sep (q # ps)"

section \<open>Grade scorer\<close>

text \<open>
  Grades are Python floats; they are modelled as rational numbers. \<open>round(x, 1)\<close> rounds
  to one decimal place, a tie to the even neighbour.
\<close>

definition round_half_even :: "rat \<Rightarrow> int" where
  "round_half_even x =
     (let f = \<lfloor>x\<rfloor>; d = x - of_int f
      in if d < 1 / 2 then f else if 1 / 2 < d then f + 1 else if even f then f else f + 1)"

definition round1 :: "rat \<Rightarrow> rat" where
  "round1 x = of_int (round_half_even (x * 10)) / 10"

text \<open>
  \<open>fk_grade\<close> calls the library function \<open>textstat.flesch_kincaid_grade\<close> inside
  \<open>try\<close>. The library is not part of the program: the call is the parameter
  \<open>flesch_kincaid_grade\<close>, which answers with a grade (\<open>Inr\<close>) or raises an exception
  (\<open>Inl\<close>); the handler \<open>except Exception\<close> turns every exception into the grade 0.
\<close>

definition fk_grade :: "(string \<Rightarrow> 'e + rat) \<Rightarrow> string \<Rightarrow> rat" where
  "fk_grade flesch_kincaid_grade txt =
     (case flesch_kincaid_grade txt of
        Inr g \<Rightarrow> max (round1 g) 0
      | Inl e \<Rightarrow> 0)"

section \<open>Annotator\<close>

text \<open>\<open>html.escape(s)\<close> with its default \<open>quote=True\<close>.\<close>

definition escape_char :: "char \<Rightarrow> string" where
  "escape_char c =
     (if c = CHR ''&'' then ''&amp;''
      else if c = CHR ''<'' then ''&lt;''
      else if c = CHR ''>'' then ''&gt;''
      else if c = CHR 0x22 then ''&quot;''
      else if c = CHR 0x27 then ''&#x27;''
      else [c])"

definition escape :: "string \<Rightarrow> string" where
  "escape s = concat (map escape_char s)"

text \<open>
  \<open>re.split(r"(\s+)", s)\<close>: the pattern has a group, so the separators are kept. The result
  alternates between a part without whitespace (empty at an end of the text where
  whitespace stands) and a whole run of whitespace.
\<close>

function re_split_ws :: "string \<Rightarrow> string \<Rightarrow> string list" where
  "re_split_ws cur [] = [cur]"
| "re_split_ws cur (c # cs) =
     (if is_space c
      then cur # takeWhile is_space (c # cs) # re_split_ws [] (dropWhile is_space (c # cs))
      else re_split_ws (cur @ [c]) cs)"
  by pat_completeness auto
termination
  by (relation "measure (\<lambda>(cur, s). length s)") (auto simp: le_imp_less_Suc length_dropWhile_le)

definition dquote :: string where
  "dquote = [CHR 0x22]"

definition heavy_open :: string where
  "heavy_open = ''<span style='' @ dquote @ ''text-decoration:underline;''
     @ ''text-decoration-color:#cc0000;'' @ ''text-underline-offset:3px;'' @ dquote @ ''>''"

definition above_open :: string where
  "above_open = ''<span style='' @ dquote @ ''background:rgba(255,140,0,0.38);''
     @ ''border-radius:3px;padding:1px 2px;'' @ dquote @ ''>''"

definition span_close :: string where
  "span_close = ''</span>''"

text \<open>The body of the loop over the tokens: the piece of HTML appended for one token.\<close>

definition render_token :: "(string \<Rightarrow> nat) \<Rightarrow> string \<Rightarrow> string" where
  "render_token syllapy_count tok =
     (let alpha_only = sub_non_alpha tok
      in if alpha_only \<noteq> [] \<and> 3 \<le> count_syllables syllapy_count alpha_only
         then heavy_open @ escape tok @ span_close
         else escape tok)"

text \<open>The body of the loop over the sentences: the piece of HTML appended for one sentence.\<close>

definition sentence_content :: "(string \<Rightarrow> nat) \<Rightarrow> string \<Rightarrow> string" where
  "sentence_content syllapy_count sentence =
     concat (map (render_token syllapy_count) (re_split_ws [] sentence))"

definition render_sentence ::
  "(string \<Rightarrow> nat) \<Rightarrow> (string \<Rightarrow> 'e + rat) \<Rightarrow> rat \<Rightarrow> string \<Rightarrow> string" where
  "render_sentence syllapy_count flesch_kincaid_grade target sentence =
     (let above_target = (target < fk_grade flesch_kincaid_grade sentence);
          content = sentence_content syllapy_count sentence
      in if above_target then above_open @ content @ span_close else content)"

definition render_body ::
  "(string \<Rightarrow> nat) \<Rightarrow> (string \<Rightarrow> 'e + rat) \<Rightarrow> string \<Rightarrow> rat \<Rightarrow> string" where
  "render_body syllapy_count flesch_kincaid_grade zone_text target =
     join '' '' (map (render_sentence syllapy_count flesch_kincaid_grade target)
                    (split_into_sentences zone_text))"

definition ZONE_COLORS :: "string \<Rightarrow> string option" where
  "ZONE_COLORS = [''Dialogue'' \<mapsto> ''#AED6F1'', ''Math Problem'' \<mapsto> ''#A9DFBF'',
                  ''Narration'' \<mapsto> ''#FAD7A0'']"

definition zone_open :: "string \<Rightarrow> string" where
  "zone_open zone_type =
     (let bg = (case ZONE_COLORS zone_type of Some clr \<Rightarrow> clr | None \<Rightarrow> ''#ffffff'');
          label = escape zone_type
      in ''<div style='' @ dquote @ ''background:'' @ bg @ '';padding:14px 18px;border-radius:10px;''
         @ ''margin:10px 0;border-left:5px solid rgba(0,0,0,0.18);''
         @ ''font-size:15px;line-height:1.9;'' @ dquote @ ''>''
         @ ''<span style='' @ dquote @ ''font-size:10.5px;font-weight:800;text-transform:uppercase;''
         @ ''letter-spacing:1.5px;color:#555;'' @ dquote @ ''>'' @ label @ ''</span>''
         @ ''<hr style='' @ dquote
         @ ''margin:7px 0 10px;border:none;border-top:1px solid rgba(0,0,0,0.12);'' @ dquote @ ''>'')"

definition render_zone_html ::
  "(string \<Rightarrow> nat) \<Rightarrow> (string \<Rightarrow> 'e + rat) \<Rightarrow> string \<Rightarrow> string \<Rightarrow> rat \<Rightarrow> string" where
  "render_zone_html syllapy_count flesch_kincaid_grade zone_text zone_type target =
     zone_open zone_type
     @ render_body syllapy_count flesch_kincaid_grade zone_text target
     @ ''</div>''"

section \<open>Zone registry\<close>

text \<open>
  A zone is the dictionary \<open>{"text": ..., "label": ...}\<close>; the session state holds the
  list of zones and the counter that resets the text area.
\<close>

record zone =
  zone_text :: string
  zone_label :: string

record session_state =
  zones :: "zone list"
  pdf_text :: string
  last_fname :: string
  zone_key :: nat

text \<open>What a handler does besides changing the state: rerun the script, or show a warning.\<close>

datatype effect = Rerun | Warning string

datatype py_error = IndexError

definition add_warning :: string where
  "add_warning = ''Please paste some text into the Zone Text box before clicking Add Zone.''"

text \<open>The handler of the button "Add Zone".\<close>

definition btn_add :: "session_state \<Rightarrow> string \<Rightarrow> string \<Rightarrow> session_state \<times> effect" where
  "btn_add st zone_text_input zone_type_sel =
     (if strip zone_text_input \<noteq> []
      then (st\<lparr>zones := zones st @ [\<lparr>zone_text = strip zone_text_input, zone_label = zone_type_sel\<rparr>],
               zone_key := zone_key st + 1\<rparr>, Rerun)
      else (st, Warning add_warning))"

text \<open>\<open>list.pop(idx)\<close> for an index counted from the front: out of range it raises.\<close>

definition pop :: "'a list \<Rightarrow> nat \<Rightarrow> py_error + 'a list" where
  "pop xs idx = (if idx < length xs then Inr (take idx xs @ drop (Suc idx) xs) else Inl IndexError)"

text \<open>The handler of the delete button of the zone at position \<open>idx\<close>.\<close>

definition btn_del :: "session_state \<Rightarrow> nat \<Rightarrow> py_error + session_state \<times> effect" where
  "btn_del st idx =
     (case pop (zones st) idx of
        Inl e \<Rightarrow> Inl e
      | Inr zs \<Rightarrow> Inr (st\<lparr>zones := zs\<rparr>, Rerun))"

section \<open>Zone summary\<close>

text \<open>
  \<open>\w\<close> in a \<open>str\<close> pattern: the alphanumeric characters (\<open>str.isalnum()\<close>) and the
  underscore. Below U+0100 these are the digits, the letters, the underscore, and of the
  upper half the ordinal indicators, the micro sign, the superscript digits, the
  fractions and the accented letters.
\<close>

definition is_word :: "char \<Rightarrow> bool" where
  "is_word c =
     ((48 \<le> code c \<and> code c \<le> 57) \<or> is_alpha c \<or> code c = 95
      \<or> code c = 170 \<or> code c = 178 \<or> code c = 179 \<or> code c = 181
      \<or> code c = 185 \<or> code c = 186 \<or> (188 \<le> code c \<and> code c \<le> 190)
      \<or> (192 \<le> code c \<and> code c \<le> 214) \<or> (216 \<le> code c \<and> code c \<le> 246)
      \<or> 248 \<le> code c)"

text \<open>
  \<open>\b\<close> at a position: exactly one of the character before and the character behind is
  a word character, the ends of the text counting as none.
\<close>

definition word_boundary :: "char option \<Rightarrow> string \<Rightarrow> bool" where
  "word_boundary prev rest =
     ((case prev of None \<Rightarrow> False | Some p \<Rightarrow> is_word p)
      \<noteq> (case rest of [] \<Rightarrow> False | c # _ \<Rightarrow> is_word c))"

text \<open>
  The length of the match of \<^verbatim>\<open>\b[a-zA-Z]+\b\<close> at a position, if it matches there: the
  repetition is greedy and gives characters back until the closing \<open>\b\<close> holds.
\<close>

definition word_match :: "char option \<Rightarrow> string \<Rightarrow> nat option" where
  "word_match prev s =
     (if word_boundary prev s
      then find (\<lambda>n. word_boundary (Some (s ! (n - 1))) (drop n s))
             (greedy (length (takeWhile is_alpha s)))
      else None)"

text \<open>\<open>re.findall(r"\b[a-zA-Z]+\b", s)\<close>: the matches, scanning from the left.\<close>

function findall_words :: "char option \<Rightarrow> string \<Rightarrow> string list" where
  "findall_words prev [] = []"
| "findall_words prev (c # cs) =
     (case word_match prev (c # cs) of
        Some n \<Rightarrow> take n (c # cs) # findall_words (Some ((c # cs) ! (n - 1))) (drop n (c # cs))
      | None \<Rightarrow> findall_words (Some c) cs)"
  by pat_completeness auto
termination
proof (relation "measure (\<lambda>(prev, s). length s)")
  fix prev :: "char option" and c cs n
  assume "word_match prev (c # cs) = Some n"
  then have "\<exists>i<length (greedy (length (takeWhile is_alpha (c # cs)))).
      n = greedy (length (takeWhile is_alpha (c # cs))) ! i"
    by (auto simp: word_match_def find_Some_iff split: if_splits)
  then have "n \<in> set (greedy (length (takeWhile is_alpha (c # cs))))"
    using nth_mem by blast
  then have "1 \<le> n"
    by (auto simp: greedy_def)
  then show "((Some ((c # cs) ! (n - 1)), drop n (c # cs)), prev, c # cs)
      \<in> measure (\<lambda>(prev, s). length s)"
    by simp
qed simp_all

text \<open>\<open>int(x)\<close> of a number: the fraction is cut off, towards zero.\<close>

definition py_int :: "rat \<Rightarrow> int" where
  "py_int x = (if 0 \<le> x then \<lfloor>x\<rfloor> else \<lceil>x\<rceil>)"

text \<open>
  The row of the summary table. The two status texts start with a pictograph outside
  the 8-bit range, so the column is modelled as a datatype.
\<close>

datatype status = On_Target | Above_Target

record summary_row =
  row_zone_type :: string
  row_words :: nat
  row_grade :: rat
  row_target :: int
  row_status :: status

definition zone_summary_row :: "(string \<Rightarrow> 'e + rat) \<Rightarrow> zone \<Rightarrow> rat \<Rightarrow> summary_row" where
  "zone_summary_row flesch_kincaid_grade z target =
     (let txt = zone_text z;
          words = findall_words None txt;
          grade = fk_grade flesch_kincaid_grade txt
      in \<lparr>row_zone_type = zone_label z,
          row_words = length words,
          row_grade = grade,
          row_target = py_int target,
          row_status = (if grade \<le> target then On_Target else Above_Target)\<rparr>)"

section \<open>Notions of the specification\<close>

text \<open>
  The maximal runs of the characters of a class \<open>P\<close> in a text, from left to right; \<open>cur\<close>
  is the run being read. With \<open>P = is_alpha\<close> these are the word tokens of the
  specification: the maximal runs of alphabetic characters.
\<close>

fun runs :: "(char \<Rightarrow> bool) \<Rightarrow> string \<Rightarrow> string \<Rightarrow> string list" where
  "runs P cur [] = (if cur = [] then [] else [cur])"
| "runs P cur (c # cs) =
     (if P c then runs P (cur @ [c]) cs
      else (if cur = [] then [] else [cur]) @ runs P [] cs)"

definition alpha_runs :: "string \<Rightarrow> string list" where
  "alpha_runs s = runs is_alpha [] s"

text \<open>
  The maximal runs of word characters (letters, digits, underscore) that consist of
  letters \<open>[a-zA-Z]\<close> only: the alphabetic runs with no digit, underscore or other word
  character next to them.
\<close>

definition letter_words :: "string \<Rightarrow> string list" where
  "letter_words s = filter (list_all is_alpha) (runs is_word [] s)"

text \<open>The separator of the sentences in the output: a single space.\<close>

abbreviation blank :: string where
  "blank \<equiv> '' ''"

text \<open>
  Stripping the markup of an HTML text: the tags are removed (everything from \<open><\<close> to the
  next \<open>>\<close>), and the five character references that \<open>html.escape\<close> writes are decoded.
\<close>

fun strip_tags :: "bool \<Rightarrow> string \<Rightarrow> string" where
  "strip_tags in_tag [] = []"
| "strip_tags in_tag (c # cs) =
     (if in_tag then (if c = CHR ''>'' then strip_tags False cs else strip_tags True cs)
      else if c = CHR ''<'' then strip_tags True cs
      else c # strip_tags False cs)"

fun unescape :: "string \<Rightarrow> string" where
  "unescape [] = []"
| "unescape (c # cs) =
     (if c = CHR ''&'' then
        (if take 4 cs = ''amp;'' then CHR ''&'' # unescape (drop 4 cs)
         else if take 3 cs = ''lt;'' then CHR ''<'' # unescape (drop 3 cs)
         else if take 3 cs = ''gt;'' then CHR ''>'' # unescape (drop 3 cs)
         else if take 5 cs = ''quot;'' then CHR 0x22 # unescape (drop 5 cs)
         else if take 5 cs = ''#x27;'' then CHR 0x27 # unescape (drop 5 cs)
         else c # unescape cs)
      else c # unescape cs)"

definition text_content :: "string \<Rightarrow> string" where
  "text_content s = unescape (strip_tags False s)"

text \<open>The words of a text as whitespace separates them: the maximal runs without whitespace.\<close>

abbreviation nsp :: "char \<Rightarrow> bool" where
  "nsp \<equiv> (\<lambda>c. \<not> is_space c)"

definition ws_words :: "string \<Rightarrow> string list" where
  "ws_words s = runs nsp [] s"

text \<open>
  The runs of a text: its maximal runs of whitespace and its maximal runs without
  whitespace, in order.
\<close>

function ws_runs :: "string \<Rightarrow> string list" where
  "ws_runs [] = []"
| "ws_runs (c # cs) =
     (if is_space c
      then takeWhile is_space (c # cs) # ws_runs (dropWhile is_space (c # cs))
      else takeWhile nsp (c # cs) # ws_runs (dropWhile nsp (c # cs)))"
  by pat_completeness auto
termination
  by (relation "measure length") (auto simp: le_imp_less_Suc length_dropWhile_le)

text \<open>
  A highlight: the text is wrapped in a \<open>span\<close> element with the opening tag \<open>tag\<close> when
  the mark is on, and left as it is otherwise. A run is heavy when it has a letter and
  its syllable estimate is at least 3.
\<close>

definition mark :: "string \<Rightarrow> bool \<Rightarrow> string \<Rightarrow> string" where
  "mark tag on s = (if on then tag @ s @ ''</span>'' else s)"

definition heavy :: "(string \<Rightarrow> nat) \<Rightarrow> string \<Rightarrow> bool" where
  "heavy syllapy_count run = (list_ex is_alpha run \<and> 3 \<le> count_syllables syllapy_count run)"

section \<open>Auxiliary notions of the proofs\<close>

text \<open>The character before a position, or the one behind it, is a word character.\<close>

definition prev_word :: "char option \<Rightarrow> bool" where
  "prev_word prev = (case prev of None \<Rightarrow> False | Some p \<Rightarrow> is_word p)"

definition next_word :: "string \<Rightarrow> bool" where
  "next_word rest = (case rest of [] \<Rightarrow> False | c # _ \<Rightarrow> is_word c)"

text \<open>
  What stands behind the part \<open>cur\<close> in the sentences joined by single spaces, and the
  first character behind the leading whitespace of a text.
\<close>

definition behind :: "string \<Rightarrow> string list \<Rightarrow> string" where
  "behind cur parts = drop (length cur) (join blank parts)"

definition first_nonspace :: "string \<Rightarrow> char option" where
  "first_nonspace s = (case dropWhile is_space s of [] \<Rightarrow> None | d # _ \<Rightarrow> Some d)"

text \<open>A sentence span: not empty, with no whitespace at either end.\<close>

definition trimmed :: "string \<Rightarrow> bool" where
  "trimmed p = (p \<noteq> [] \<and> \<not> is_space (hd p) \<and> \<not> is_space (last p))"

section \<open>Properties of the syllable estimator\<close>

lemma lower_eq_Nil: "lower s = [] \<longleftrightarrow> s = []"
  by (simp add: lower_def)

lemma sub_non_alpha_eq_Nil: "sub_non_alpha w = [] \<longleftrightarrow> \<not> list_ex is_alpha w"
  by (simp add: sub_non_alpha_def filter_empty_conv list_ex_iff)

text \<open>
  Claim C4. A word with at least one letter of \<open>[a-zA-Z]\<close> has an estimate of at least 1,
  and the estimate is 0 exactly for the words with no such letter, whatever the
  dictionary answers.
\<close>

theorem count_syllables_positive_iff_alpha:
  "(1 \<le> count_syllables syllapy_count w) = list_ex is_alpha w
   \<and> (count_syllables syllapy_count w = 0) = (\<not> list_ex is_alpha w)"
proof (cases "list_ex is_alpha w")
  case True
  then have ne: "lower (sub_non_alpha w) \<noteq> []"
    by (simp add: lower_eq_Nil sub_non_alpha_eq_Nil)
  have "1 \<le> count_syllables syllapy_count w"
    using ne by (simp add: count_syllables_def Let_def)
  with True show ?thesis by simp
next
  case False
  then have "lower (sub_non_alpha w) = []"
    by (simp add: lower_eq_Nil sub_non_alpha_eq_Nil)
  then have "count_syllables syllapy_count w = 0"
    by (simp add: count_syllables_def)
  with False show ?thesis by simp
qed

section \<open>Properties of the matchers\<close>

lemma find_greedy:
  assumes "\<And>n. 1 \<le> n \<Longrightarrow> n < k \<Longrightarrow> \<not> P n"
  shows "find P (greedy k) = (if 1 \<le> k \<and> P k then Some k else None)"
proof (cases k)
  case 0
  then show ?thesis by (simp add: greedy_def)
next
  case (Suc m)
  have "find P (rev [1..<Suc m]) = None"
    using assms Suc by (auto simp: find_None_iff)
  then show ?thesis
    using Suc by (simp add: greedy_def)
qed

lemma takeWhile_nth_holds: "n < length (takeWhile P s) \<Longrightarrow> P (s ! n)"
  by (metis nth_mem set_takeWhileD takeWhile_nth)

lemma drop_in_takeWhile:
  "n < length (takeWhile P s) \<Longrightarrow> \<exists>r. drop n s = s ! n # r \<and> P (s ! n)"
proof -
  assume n: "n < length (takeWhile P s)"
  have "length (takeWhile P s) \<le> length s"
    by (rule length_takeWhile_le)
  with n have "n < length s" by simp
  then have "drop n s = s ! n # drop (Suc n) s"
    by (simp add: Cons_nth_drop_Suc)
  with n show ?thesis
    by (auto simp: takeWhile_nth_holds)
qed

lemma space_not_start: "is_space c \<Longrightarrow> \<not> (is_upper c \<or> c = CHR 0x22 \<or> c = CHR 0x27)"
  by (auto simp: is_space_def is_upper_def code_def)

lemma sep_match_eq:
  "sep_match prev s =
     (if lookbehind prev \<and> takeWhile is_space s \<noteq> [] \<and> lookahead (dropWhile is_space s)
      then Some (length (takeWhile is_space s)) else None)"
proof -
  let ?k = "length (takeWhile is_space s)"
  have no: "\<not> lookahead (drop n s)" if n1: "1 \<le> n" and nk: "n < ?k" for n
  proof -
    obtain r where "drop n s = s ! n # r" "is_space (s ! n)"
      using drop_in_takeWhile [OF nk] by blast
    then show ?thesis
      using space_not_start by (simp add: lookahead_def)
  qed
  have "find (\<lambda>n. lookahead (drop n s)) (greedy ?k)
      = (if 1 \<le> ?k \<and> lookahead (drop ?k s) then Some ?k else None)"
    using no by (rule find_greedy)
  moreover have "drop ?k s = dropWhile is_space s"
    by (simp add: dropWhile_eq_drop)
  moreover have "1 \<le> ?k \<longleftrightarrow> takeWhile is_space s \<noteq> []"
    by (cases "takeWhile is_space s") simp_all
  ultimately show ?thesis
    by (simp add: sep_match_def)
qed

lemma alpha_is_word: "is_alpha c \<Longrightarrow> is_word c"
  by (simp add: is_word_def)

lemma word_boundary_alt: "word_boundary prev rest = (prev_word prev \<noteq> next_word rest)"
  by (simp add: word_boundary_def prev_word_def next_word_def)

lemma word_match_eq:
  "word_match prev s =
     (if \<not> prev_word prev \<and> takeWhile is_alpha s \<noteq> [] \<and> \<not> next_word (dropWhile is_alpha s)
      then Some (length (takeWhile is_alpha s)) else None)"
proof -
  let ?k = "length (takeWhile is_alpha s)"
  let ?P = "\<lambda>n. word_boundary (Some (s ! (n - 1))) (drop n s)"
  have no: "\<not> ?P n" if n1: "1 \<le> n" and nk: "n < ?k" for n
  proof -
    obtain r where "drop n s = s ! n # r" "is_alpha (s ! n)"
      using drop_in_takeWhile [OF nk] by blast
    moreover have "is_alpha (s ! (n - 1))"
      using n1 nk by (intro takeWhile_nth_holds [of _ is_alpha]) simp
    ultimately show ?thesis
      by (simp add: word_boundary_alt prev_word_def next_word_def alpha_is_word)
  qed
  have f: "find ?P (greedy ?k) = (if 1 \<le> ?k \<and> ?P ?k then Some ?k else None)"
    using no by (rule find_greedy)
  have d: "drop ?k s = dropWhile is_alpha s"
    by (simp add: dropWhile_eq_drop)
  have k: "1 \<le> ?k \<longleftrightarrow> takeWhile is_alpha s \<noteq> []"
    by (cases "takeWhile is_alpha s") simp_all
  have last: "1 \<le> ?k \<Longrightarrow> is_word (s ! (?k - 1))"
    by (intro alpha_is_word takeWhile_nth_holds [of _ is_alpha]) simp
  have start: "takeWhile is_alpha s \<noteq> [] \<Longrightarrow> next_word s"
    by (cases s) (auto simp: next_word_def alpha_is_word split: if_splits)
  show ?thesis
  proof (cases "takeWhile is_alpha s = []")
    case True
    then show ?thesis
      using f k by (simp add: word_match_def)
  next
    case False
    then have "?P ?k \<longleftrightarrow> \<not> next_word (dropWhile is_alpha s)"
      using last k d by (simp add: word_boundary_alt prev_word_def)
    then show ?thesis
      using False f k start [OF False] by (simp add: word_match_def word_boundary_alt)
  qed
qed

lemma runs_split:
  "runs P cur s =
     (if cur @ takeWhile P s = [] then [] else [cur @ takeWhile P s]) @ runs P [] (dropWhile P s)"
  by (induction s arbitrary: cur) simp_all


lemma runs_nonword_head: "\<not> P c \<Longrightarrow> runs P [] (c # cs) = runs P [] cs"
  by simp

lemma dropWhile_idem_next: "\<not> next_word (dropWhile is_alpha s) \<Longrightarrow>
    dropWhile is_word (dropWhile is_alpha s) = dropWhile is_alpha s"
proof -
  assume nn: "\<not> next_word (dropWhile is_alpha s)"
  show ?thesis
  proof (cases "dropWhile is_alpha s")
    case Nil
    show ?thesis by (simp only: Nil dropWhile.simps)
  next
    case (Cons d r)
    with nn have "\<not> is_word d" by (simp add: next_word_def)
    with Cons show ?thesis by simp
  qed
qed

lemma takeWhile_word_alpha:
  "\<not> next_word (dropWhile is_alpha s) \<Longrightarrow>
     takeWhile is_word s = takeWhile is_alpha s \<and> dropWhile is_word s = dropWhile is_alpha s"
  by (induction s) (auto simp: next_word_def alpha_is_word split: if_splits)

lemma alpha_run_closed:
  "list_all is_alpha (takeWhile is_word s) \<Longrightarrow> \<not> next_word (dropWhile is_alpha s)"
  by (induction s) (auto simp: next_word_def alpha_is_word split: if_splits)

lemma word_run_not_alpha:
  assumes "is_word c"
    and "takeWhile is_alpha (c # cs) = [] \<or> next_word (dropWhile is_alpha (c # cs))"
  shows "\<not> list_all is_alpha (takeWhile is_word (c # cs))"
proof
  assume all: "list_all is_alpha (takeWhile is_word (c # cs))"
  then have "is_alpha c"
    using assms(1) by simp
  then have "takeWhile is_alpha (c # cs) \<noteq> []"
    by simp
  moreover have "\<not> next_word (dropWhile is_alpha (c # cs))"
    using all by (rule alpha_run_closed)
  ultimately show False
    using assms(2) by simp
qed

lemma findall_step_match:
  assumes "word_match prev s = Some n"
  shows "\<not> prev_word prev"
    and "prev_word (Some (s ! (n - 1)))"
    and "filter (list_all is_alpha) (runs is_word [] s)
         = take n s # filter (list_all is_alpha) (runs is_word [] (dropWhile is_word (drop n s)))"
proof -
  from assms have np: "\<not> prev_word prev" and tw: "takeWhile is_alpha s \<noteq> []"
    and nn: "\<not> next_word (dropWhile is_alpha s)" and n: "n = length (takeWhile is_alpha s)"
    by (auto simp: word_match_eq split: if_splits)
  show "\<not> prev_word prev" by (rule np)
  have tk: "take n s = takeWhile is_alpha s"
    unfolding n by (rule takeWhile_eq_take [symmetric])
  have dr: "drop n s = dropWhile is_alpha s"
    unfolding n by (rule dropWhile_eq_drop [symmetric])
  have "n - 1 < length (takeWhile is_alpha s)"
    using tw n by (cases "takeWhile is_alpha s") simp_all
  then have "is_alpha (s ! (n - 1))"
    by (rule takeWhile_nth_holds)
  then show "prev_word (Some (s ! (n - 1)))"
    by (simp add: prev_word_def alpha_is_word)
  have wa: "takeWhile is_word s = takeWhile is_alpha s" "dropWhile is_word s = dropWhile is_alpha s"
    using takeWhile_word_alpha [OF nn] by simp_all
  have "runs is_word [] s
      = (if [] @ takeWhile is_word s = [] then [] else [[] @ takeWhile is_word s])
        @ runs is_word [] (dropWhile is_word s)"
    by (rule runs_split)
  then have r: "runs is_word [] s = take n s # runs is_word [] (drop n s)"
    using tw by (simp add: wa tk dr)
  have keep: "list_all is_alpha (take n s)"
    unfolding tk by (auto simp: list_all_iff dest: set_takeWhileD)
  have "dropWhile is_word (drop n s) = drop n s"
    unfolding dr using nn by (rule dropWhile_idem_next)
  then show "filter (list_all is_alpha) (runs is_word [] s)
      = take n s # filter (list_all is_alpha) (runs is_word [] (dropWhile is_word (drop n s)))"
    using r keep by simp
qed

lemma findall_step_nomatch:
  assumes "word_match prev (c # cs) = None"
  shows "filter (list_all is_alpha)
           (runs is_word [] (if prev_word prev then dropWhile is_word (c # cs) else c # cs))
       = filter (list_all is_alpha)
           (runs is_word [] (if is_word c then dropWhile is_word cs else cs))"
proof (cases "is_word c")
  case False
  then show ?thesis by simp
next
  case w: True
  show ?thesis
  proof (cases "prev_word prev")
    case True
    then show ?thesis using w by simp
  next
    case False
    then have "takeWhile is_alpha (c # cs) = [] \<or> next_word (dropWhile is_alpha (c # cs))"
      using assms unfolding word_match_eq by (metis option.distinct(1))
    then have "\<not> list_all is_alpha (takeWhile is_word (c # cs))"
      using w by (rule word_run_not_alpha [rotated])
    moreover define W where "W = takeWhile is_word (c # cs)"
    ultimately have drop_run: "\<not> list_all is_alpha W"
      by simp
    have "W \<noteq> []"
      using w by (simp add: W_def)
    moreover have "runs is_word [] (c # cs)
        = (if [] @ W = [] then [] else [[] @ W]) @ runs is_word [] (dropWhile is_word (c # cs))"
      unfolding W_def by (rule runs_split)
    ultimately have "runs is_word [] (c # cs) = W # runs is_word [] (dropWhile is_word cs)"
      using w by simp
    then have "filter (list_all is_alpha) (runs is_word [] (c # cs))
        = filter (list_all is_alpha) (runs is_word [] (dropWhile is_word cs))"
      using drop_run by simp
    then show ?thesis
      using w False by simp
  qed
qed

lemma findall_words_runs:
  "findall_words prev s =
     filter (list_all is_alpha)
       (runs is_word [] (if prev_word prev then dropWhile is_word s else s))"
proof (induction prev s rule: findall_words.induct)
  case (1 prev)
  then show ?case by simp
next
  case (2 prev c cs)
  show ?case
  proof (cases "word_match prev (c # cs)")
    case (Some n)
    note st = findall_step_match [OF Some]
    have "findall_words prev (c # cs)
        = take n (c # cs) # findall_words (Some ((c # cs) ! (n - 1))) (drop n (c # cs))"
      using Some by simp
    also have "findall_words (Some ((c # cs) ! (n - 1))) (drop n (c # cs))
        = filter (list_all is_alpha) (runs is_word [] (dropWhile is_word (drop n (c # cs))))"
      using "2.IH"(2) [OF Some] st(2) by (simp only: if_True)
    also have "take n (c # cs) # filter (list_all is_alpha)
          (runs is_word [] (dropWhile is_word (drop n (c # cs))))
        = filter (list_all is_alpha) (runs is_word [] (c # cs))"
      by (rule st(3) [symmetric])
    finally show ?thesis
      using st(1) by (simp only: if_False)
  next
    case None
    have "findall_words prev (c # cs) = findall_words (Some c) cs"
      using None by simp
    also have "\<dots> = filter (list_all is_alpha)
        (runs is_word [] (if is_word c then dropWhile is_word cs else cs))"
      using "2.IH"(1) [OF None] by (simp add: prev_word_def)
    also have "\<dots> = filter (list_all is_alpha)
        (runs is_word [] (if prev_word prev then dropWhile is_word (c # cs) else c # cs))"
      by (rule findall_step_nomatch [OF None, symmetric])
    finally show ?thesis .
  qed
qed

section \<open>Properties of the sentence segmenter\<close>

text \<open>
  Claim C2. On the text of the scenario the segmenter splits behind \<open>Dr.\<close> as well, since
  a capital letter follows the whitespace: it returns three sentences, not two.
\<close>

theorem split_into_sentences_dr_smith:
  "split_into_sentences ''Dr. Smith calculated the answer. The cat sat.''
   = [''Dr.'', ''Smith calculated the answer.'', ''The cat sat.'']"
  by code_simp

lemma join_Cons: "join s (p # ps) = (if ps = [] then p else p @ s @ join s ps)"
  by (cases ps) simp_all

lemma re_split_sentences_nonempty: "re_split_sentences prev cur s \<noteq> []"
  by (induction prev cur s rule: re_split_sentences.induct) (auto split: option.splits)

lemma sep_match_lookbehind:
  "lookbehind p = lookbehind p' \<Longrightarrow> sep_match p s = sep_match p' s"
  by (simp add: sep_match_def)

lemma re_split_sentences_prev:
  "lookbehind p = lookbehind p' \<Longrightarrow> re_split_sentences p cur s = re_split_sentences p' cur s"
  by (cases s) (simp_all add: sep_match_lookbehind [of p p'])

lemma join_re_split_prefix:
  "\<exists>x. join sep (re_split_sentences prev cur s) = cur @ x"
proof (induction prev cur s rule: re_split_sentences.induct)
  case (1 prev cur)
  then show ?case by simp
next
  case (2 prev cur c cs)
  show ?case
  proof (cases "sep_match prev (c # cs)")
    case None
    then show ?thesis
      using "2.IH"(1) [OF None] by auto
  next
    case (Some n)
    then show ?thesis
      by (simp add: join_Cons)
  qed
qed

lemma join_rest: "join blank (re_split_sentences prev cur s) = cur @ behind cur (re_split_sentences prev cur s)"
  using join_re_split_prefix [of blank prev cur s] by (auto simp: behind_def)

lemma rest_snoc:
  "behind cur (re_split_sentences prev (cur @ [c]) s)
   = c # behind (cur @ [c]) (re_split_sentences prev (cur @ [c]) s)"
  using join_re_split_prefix [of blank prev "cur @ [c]" s] by (auto simp: behind_def)

lemma sep_match_None_step:
  "sep_match prev (c # cs) = None \<Longrightarrow>
     re_split_sentences prev cur (c # cs) = re_split_sentences (Some c) (cur @ [c]) cs"
  by simp

lemma space_not_lookbehind: "is_space c \<Longrightarrow> \<not> lookbehind (Some c)"
  by (auto simp: lookbehind_def is_space_def code_def)

lemma sep_match_no_lookbehind: "\<not> lookbehind prev \<Longrightarrow> sep_match prev s = None"
  by (simp add: sep_match_def)

lemma sep_match_nonspace: "\<not> is_space c \<Longrightarrow> sep_match prev (c # cs) = None"
  by (simp add: sep_match_eq)

lemma lookahead_first: "lookahead (dropWhile is_space s) =
   (case first_nonspace s of None \<Rightarrow> False | Some d \<Rightarrow> is_upper d \<or> d = CHR 0x22 \<or> d = CHR 0x27)"
proof -
  have "lookahead xs = (case (case xs of [] \<Rightarrow> None | d # _ \<Rightarrow> Some d) of
      None \<Rightarrow> False | Some d \<Rightarrow> is_upper d \<or> d = CHR 0x22 \<or> d = CHR 0x27)" for xs
    by (cases xs) (simp_all add: lookahead_def)
  then show ?thesis
    unfolding first_nonspace_def .
qed

lemma first_nonspace_Cons:
  "first_nonspace (c # cs) = (if is_space c then first_nonspace cs else Some c)"
  by (simp add: first_nonspace_def)

lemma first_nonspace_rest:
  "\<not> lookbehind prev \<Longrightarrow>
     first_nonspace (behind cur (re_split_sentences prev cur s)) = first_nonspace s"
proof (induction s arbitrary: prev cur)
  case Nil
  then show ?case by (simp add: behind_def)
next
  case (Cons c cs)
  have step: "re_split_sentences prev cur (c # cs) = re_split_sentences (Some c) (cur @ [c]) cs"
    using Cons.prems by (simp add: sep_match_no_lookbehind)
  show ?case
  proof (cases "is_space c")
    case True
    then have "\<not> lookbehind (Some c)" by (rule space_not_lookbehind)
    from Cons.IH [OF this, of "cur @ [c]"] True show ?thesis
      by (simp only: step rest_snoc first_nonspace_Cons if_True)
  next
    case False
    then show ?thesis
      by (simp only: step rest_snoc first_nonspace_Cons if_False)
  qed
qed

lemma sep_match_first:
  "first_nonspace cs = first_nonspace cs' \<Longrightarrow>
     (sep_match prev (c # cs) = None) = (sep_match prev (c # cs') = None)"
  by (simp add: sep_match_eq lookahead_first first_nonspace_Cons)


lemma sep_match_single_space:
  "lookbehind prev \<Longrightarrow> is_upper d \<or> d = CHR 0x22 \<or> d = CHR 0x27 \<Longrightarrow>
     sep_match prev (CHR '' '' # d # x) = Some 1"
proof -
  assume lb: "lookbehind prev" and d: "is_upper d \<or> d = CHR 0x22 \<or> d = CHR 0x27"
  have blank: "is_space (CHR '' '')"
    by (simp add: is_space_def code_def)
  have "\<not> is_space d"
    using d space_not_start by blast
  then show ?thesis
    using lb d blank by (simp add: sep_match_eq lookahead_def)
qed

lemma re_split_stable:
  "re_split_sentences prev cur (behind cur (re_split_sentences prev cur s))
   = re_split_sentences prev cur s"
proof (induction prev cur s rule: re_split_sentences.induct)
  case (1 prev cur)
  then show ?case by (simp add: behind_def)
next
  case (2 prev cur c cs)
  show ?case
  proof (cases "sep_match prev (c # cs)")
    case None
    let ?L = "re_split_sentences (Some c) (cur @ [c]) cs"
    have L: "re_split_sentences prev cur (c # cs) = ?L"
      using None by simp
    have ih: "re_split_sentences (Some c) (cur @ [c]) (behind (cur @ [c]) ?L) = ?L"
      using "2.IH"(1) [OF None] .
    have "first_nonspace (behind (cur @ [c]) ?L) = first_nonspace cs" if "is_space c"
      using that by (intro first_nonspace_rest space_not_lookbehind)
    then have "sep_match prev (c # behind (cur @ [c]) ?L) = None"
      using None sep_match_first [of "behind (cur @ [c]) ?L" cs prev c] sep_match_nonspace [of c prev]
      by (cases "is_space c") simp_all
    then have "re_split_sentences prev cur (c # behind (cur @ [c]) ?L)
        = re_split_sentences (Some c) (cur @ [c]) (behind (cur @ [c]) ?L)"
      by (rule sep_match_None_step)
    then show ?thesis
      by (simp only: L rest_snoc ih)
  next
    case (Some n)
    let ?s = "c # cs"
    let ?p = "Some (?s ! (n - 1))"
    let ?L = "re_split_sentences ?p [] (drop n ?s)"
    have L: "re_split_sentences prev cur ?s = cur # ?L"
      using Some by simp
    have ih: "re_split_sentences ?p [] (join blank ?L) = ?L"
      using "2.IH"(2) [OF Some] by (simp add: behind_def)
    from Some have lb: "lookbehind prev" and tw: "takeWhile is_space ?s \<noteq> []"
      and la: "lookahead (dropWhile is_space ?s)" and n: "n = length (takeWhile is_space ?s)"
      by (auto simp: sep_match_eq split: if_splits)
    have dr: "drop n ?s = dropWhile is_space ?s"
      unfolding n by (rule dropWhile_eq_drop [symmetric])
    obtain d t where dt: "dropWhile is_space ?s = d # t"
      using la by (cases "dropWhile is_space ?s") (simp_all add: lookahead_def)
    have dstart: "is_upper d \<or> d = CHR 0x22 \<or> d = CHR 0x27"
      using la by (simp only: dt lookahead_def list.case)
    then have dns: "\<not> is_space d"
      using space_not_start by blast
    have "n - 1 < length (takeWhile is_space ?s)"
      using tw n by (cases "takeWhile is_space ?s") simp_all
    then have "is_space (?s ! (n - 1))"
      by (rule takeWhile_nth_holds)
    then have nlb: "\<not> lookbehind ?p"
      by (rule space_not_lookbehind)
    have "re_split_sentences ?p [] (d # t) = re_split_sentences (Some d) ([] @ [d]) t"
      using dns by (intro sep_match_None_step sep_match_nonspace)
    then have "?L = re_split_sentences (Some d) ([] @ [d]) t"
      by (simp only: dr dt)
    then obtain x where jx: "join blank ?L = d # x"
      using join_re_split_prefix [of blank "Some d" "[d]" t] by auto
    have "behind cur (cur # ?L) = CHR '' '' # join blank ?L"
      using re_split_sentences_nonempty [of ?p "[]" "drop n ?s"]
      by (simp add: behind_def join_Cons)
    moreover have "sep_match prev (CHR '' '' # join blank ?L) = Some 1"
      unfolding jx using lb dstart by (rule sep_match_single_space)
    ultimately have "re_split_sentences prev cur (behind cur (cur # ?L))
        = cur # re_split_sentences (Some (CHR '' '')) [] (join blank ?L)"
      by simp
    also have "re_split_sentences (Some (CHR '' '')) [] (join blank ?L)
        = re_split_sentences ?p [] (join blank ?L)"
      using nlb by (intro re_split_sentences_prev) (simp add: lookbehind_def)
    finally show ?thesis
      by (simp only: L ih)
  qed
qed


lemma rstrip_decomp: "u = rstrip u @ rev (takeWhile is_space (rev u))"
proof -
  have "rev u = takeWhile is_space (rev u) @ dropWhile is_space (rev u)"
    by simp
  then have "rev (rev u) = rev (takeWhile is_space (rev u) @ dropWhile is_space (rev u))"
    by (rule arg_cong)
  then show ?thesis
    by (simp only: rev_rev_ident rev_append rstrip_def)
qed

lemma rstrip_last: "rstrip u \<noteq> [] \<Longrightarrow> \<not> is_space (last (rstrip u))"
proof -
  assume "rstrip u \<noteq> []"
  then have ne: "dropWhile is_space (rev u) \<noteq> []"
    by (simp only: rstrip_def rev_is_Nil_conv simp_thms)
  then have "\<not> is_space (hd (dropWhile is_space (rev u)))"
    by (rule hd_dropWhile)
  then show ?thesis
    by (simp add: rstrip_def last_rev)
qed

lemma rstrip_hd: "rstrip u \<noteq> [] \<Longrightarrow> hd (rstrip u) = hd u"
  using rstrip_decomp [of u] by (metis hd_append2)

lemma strip_trimmed_iff: "strip t \<noteq> [] \<Longrightarrow> trimmed (strip t)"
proof -
  assume ne: "strip t \<noteq> []"
  then have ne': "rstrip (lstrip t) \<noteq> []"
    by (simp add: strip_def)
  have l: "\<not> is_space (last (strip t))"
    using ne' unfolding strip_def by (rule rstrip_last)
  have "lstrip t \<noteq> []"
    using ne' by (auto simp: rstrip_def)
  then have "\<not> is_space (hd (lstrip t))"
    unfolding lstrip_def by (rule hd_dropWhile)
  then have "\<not> is_space (hd (strip t))"
    using rstrip_hd [OF ne'] by (simp add: strip_def)
  then show ?thesis
    using ne l by (simp add: trimmed_def)
qed

lemma strip_of_trimmed: "trimmed p \<Longrightarrow> strip p = p"
proof -
  assume t: "trimmed p"
  then have "dropWhile is_space p = p"
    by (cases p) (simp_all add: trimmed_def)
  moreover have "dropWhile is_space (rev p) = rev p"
    using t by (cases "rev p") (auto simp: trimmed_def last_rev [symmetric] simp del: last_rev)
  ultimately show ?thesis
    by (simp add: strip_def lstrip_def rstrip_def)
qed

lemma lookbehind_not_space: "lookbehind (Some p) \<Longrightarrow> \<not> is_space p"
  using space_not_lookbehind by blast

lemma re_split_parts_trimmed:
  assumes "cur @ s \<noteq> []" and "\<not> is_space (last (cur @ s))" and "\<not> is_space (hd (cur @ s))"
    and "cur \<noteq> [] \<longrightarrow> prev = Some (last cur)" and "cur = [] \<longrightarrow> \<not> lookbehind prev"
  shows "list_all trimmed (re_split_sentences prev cur s)"
  using assms
proof (induction prev cur s rule: re_split_sentences.induct)
  case (1 prev cur)
  then show ?case by (simp add: trimmed_def)
next
  case (2 prev cur c cs)
  show ?case
  proof (cases "sep_match prev (c # cs)")
    case None
    have "list_all trimmed (re_split_sentences (Some c) (cur @ [c]) cs)"
      using "2.prems" by (intro "2.IH"(1) [OF None]) simp_all
    then show ?thesis
      using None by simp
  next
    case (Some n)
    let ?s = "c # cs"
    from Some have lb: "lookbehind prev" and tw: "takeWhile is_space ?s \<noteq> []"
      and la: "lookahead (dropWhile is_space ?s)" and n: "n = length (takeWhile is_space ?s)"
      by (auto simp: sep_match_eq split: if_splits)
    have dr: "drop n ?s = dropWhile is_space ?s"
      unfolding n by (rule dropWhile_eq_drop [symmetric])
    obtain d t where dt: "dropWhile is_space ?s = d # t"
      using la by (cases "dropWhile is_space ?s") (simp_all add: lookahead_def)
    have "is_upper d \<or> d = CHR 0x22 \<or> d = CHR 0x27"
      using la by (simp only: dt lookahead_def list.case)
    then have dns: "\<not> is_space d"
      using space_not_start by blast
    have "n - 1 < length (takeWhile is_space ?s)"
      using tw n by (cases "takeWhile is_space ?s") simp_all
    then have "is_space (?s ! (n - 1))"
      by (rule takeWhile_nth_holds)
    then have nlb: "\<not> lookbehind (Some (?s ! (n - 1)))"
      by (rule space_not_lookbehind)
    have cur: "cur \<noteq> []" "prev = Some (last cur)"
      using lb "2.prems"(4,5) by auto
    then have "\<not> is_space (last cur)"
      using lb lookbehind_not_space by simp
    moreover have "\<not> is_space (hd cur)"
      using cur "2.prems"(3) by simp
    ultimately have tc: "trimmed cur"
      using cur by (simp add: trimmed_def)
    have "last (cur @ ?s) = last (takeWhile is_space ?s @ dropWhile is_space ?s)"
      by simp
    also have "\<dots> = last (d # t)"
      unfolding dt by (simp only: last_appendR list.distinct simp_thms)
    finally have "\<not> is_space (last (d # t))"
      using "2.prems"(2) by simp
    then have "list_all trimmed (re_split_sentences (Some (?s ! (n - 1))) [] (drop n ?s))"
      unfolding dr dt using dns nlb
      by (intro "2.IH"(2) [OF Some, unfolded dr dt]) simp_all
    then show ?thesis
      using Some tc by simp
  qed
qed

lemma join_trimmed:
  "ps \<noteq> [] \<Longrightarrow> list_all trimmed ps \<Longrightarrow> trimmed (join sep ps)"
proof (induction sep ps rule: join.induct)
  case (1 sep)
  then show ?case by simp
next
  case (2 sep p)
  then show ?case by simp
next
  case (3 sep p q ps)
  then have "trimmed (join sep (q # ps))" and "trimmed p"
    by simp_all
  then show ?case
    by (simp add: trimmed_def)
qed

lemma split_into_sentences_rejoin:
  "split_into_sentences (join blank (split_into_sentences t)) = split_into_sentences t"
proof (cases "strip t = []")
  case True
  have nil: "strip [] = []"
    by (simp add: strip_def rstrip_def lstrip_def)
  have "split_into_sentences t = []"
    using True by (simp add: split_into_sentences_def nil)
  moreover have "split_into_sentences [] = []"
    by (simp add: split_into_sentences_def nil)
  ultimately show ?thesis
    by simp
next
  case False
  let ?L = "re_split_sentences None [] (strip t)"
  have "trimmed (strip t)"
    using False by (rule strip_trimmed_iff)
  then have all: "list_all trimmed ?L"
    by (intro re_split_parts_trimmed) (simp_all add: trimmed_def lookbehind_def)
  have id: "map strip (filter (\<lambda>p. strip p \<noteq> []) ps) = ps" if "list_all trimmed ps" for ps
    using that by (induction ps) (simp_all add: strip_of_trimmed, simp add: trimmed_def)
  have L: "split_into_sentences t = ?L"
    using id [OF all] by (simp add: split_into_sentences_def)
  have "trimmed (join blank ?L)"
    using re_split_sentences_nonempty all by (rule join_trimmed)
  then have "strip (join blank ?L) = join blank ?L"
    by (rule strip_of_trimmed)
  moreover have "re_split_sentences None [] (join blank ?L) = ?L"
    using re_split_stable [of None "[]" "strip t"] by (simp add: behind_def)
  ultimately have "split_into_sentences (join blank ?L) = ?L"
    using id [OF all] by (simp add: split_into_sentences_def)
  then show ?thesis
    by (simp only: L)
qed

text \<open>
  Claim C8. Segmenting the sentences of a text, joined by single spaces, gives the same
  sentences again, and so the same number of sentences.
\<close>

theorem split_into_sentences_stable:
  "length (split_into_sentences (join '' '' (split_into_sentences t)))
     = length (split_into_sentences t)
   \<and> split_into_sentences (join '' '' (split_into_sentences t)) = split_into_sentences t"
  by (simp add: split_into_sentences_rejoin)

section \<open>Properties of the grade scorer\<close>

text \<open>
  Claim C3. Whatever the library call does on a text, answer with a grade or raise,
  \<open>fk_grade\<close> returns a grade, and the grade is at least 0; when the call raises, the grade
  is 0. This holds for every text, the empty one included.
\<close>

theorem fk_grade_total_nonneg:
  "0 \<le> fk_grade flesch_kincaid_grade t
   \<and> fk_grade (\<lambda>_. Inl e) t = 0
   \<and> fk_grade (\<lambda>_. Inr g) t = max (round1 g) 0"
  by (simp add: fk_grade_def split: sum.splits)

section \<open>Properties of the annotator\<close>

lemma strip_tags_escape_char:
  "strip_tags False (escape_char c @ r) = escape_char c @ strip_tags False r"
  by (simp add: escape_char_def)

lemma strip_tags_escape: "strip_tags False (escape s @ r) = escape s @ strip_tags False r"
  by (induction s) (simp_all add: escape_def strip_tags_escape_char)

lemma strip_tags_heavy_open: "strip_tags False (heavy_open @ r) = strip_tags False r"
  by (simp add: heavy_open_def dquote_def)

lemma strip_tags_above_open: "strip_tags False (above_open @ r) = strip_tags False r"
  by (simp add: above_open_def dquote_def)

lemma strip_tags_span_close: "strip_tags False (span_close @ r) = strip_tags False r"
  by (simp add: span_close_def)

lemma strip_tags_render_token:
  "strip_tags False (render_token sc tok @ r) = escape tok @ strip_tags False r"
  by (simp add: render_token_def Let_def strip_tags_heavy_open strip_tags_escape
      strip_tags_span_close)

lemma concat_re_split_ws: "concat (re_split_ws cur s) = cur @ s"
  by (induction cur s rule: re_split_ws.induct) simp_all

lemma escape_append: "escape (a @ b) = escape a @ escape b"
  by (simp add: escape_def)

lemma strip_tags_tokens:
  "strip_tags False (concat (map (render_token sc) toks) @ r)
   = escape (concat toks) @ strip_tags False r"
  by (induction toks) (simp_all add: strip_tags_render_token escape_append, simp add: escape_def)

lemma strip_tags_sentence_content:
  "strip_tags False (sentence_content sc s @ r) = escape s @ strip_tags False r"
  by (simp add: sentence_content_def strip_tags_tokens concat_re_split_ws)

lemma strip_tags_render_sentence:
  "strip_tags False (render_sentence sc fk tg s @ r) = escape s @ strip_tags False r"
  by (simp add: render_sentence_def Let_def strip_tags_above_open strip_tags_sentence_content
      strip_tags_span_close)

lemma escape_blank: "escape blank = blank"
  by (simp add: escape_def escape_char_def)

lemma strip_tags_join:
  "strip_tags False (join blank (map (render_sentence sc fk tg) ps) @ r)
   = escape (join blank ps) @ strip_tags False r"
proof (induction ps)
  case Nil
  then show ?case by (simp add: escape_def)
next
  case (Cons p ps)
  show ?case
  proof (cases ps)
    case Nil
    then show ?thesis by (simp add: strip_tags_render_sentence)
  next
    case (Cons q qs)
    have "strip_tags False (blank @ x) = blank @ strip_tags False x" for x
      by simp
    then show ?thesis
      using Cons.IH Cons
      by (simp add: strip_tags_render_sentence escape_append escape_blank del: append.simps)
  qed
qed

lemma unescape_escape_char: "unescape (escape_char c @ r) = c # unescape r"
  by (simp add: escape_char_def)

lemma unescape_escape_append: "unescape (escape s @ r) = s @ unescape r"
  by (induction s) (simp_all add: escape_def unescape_escape_char)

lemma unescape_escape: "unescape (escape s) = s"
  using unescape_escape_append [of s "[]"] by simp

lemma text_content_body:
  "text_content (render_body sc fk t tg) = join blank (split_into_sentences t)"
  using strip_tags_join [of sc fk tg "split_into_sentences t" "[]"]
  by (simp add: text_content_def render_body_def unescape_escape)


lemma strip_tags_in_tag:
  "CHR ''>'' \<notin> set a \<Longrightarrow> strip_tags True (a @ x) = strip_tags True x"
  by (induction a) auto

lemma zone_color_no_gt:
  "CHR ''>'' \<notin> set (case ZONE_COLORS zone_type of Some clr \<Rightarrow> clr | None \<Rightarrow> ''#ffffff'')"
  by (simp add: ZONE_COLORS_def)

lemma strip_tags_zone_open:
  "strip_tags False (zone_open zone_type @ r) = escape zone_type @ strip_tags False r"
proof -
  let ?bg = "case ZONE_COLORS zone_type of Some clr \<Rightarrow> clr | None \<Rightarrow> ''#ffffff''"
  have bg: "strip_tags True (?bg @ x) = strip_tags True x" for x
    using zone_color_no_gt [of zone_type] by (rule strip_tags_in_tag)
  have esc: "strip_tags False (escape zone_type @ x) = escape zone_type @ strip_tags False x" for x
    by (rule strip_tags_escape)
  show ?thesis
    by (simp add: zone_open_def Let_def dquote_def bg esc del: escape_def)
qed

lemma text_content_zone:
  "text_content (render_zone_html sc fk t zone_type tg)
   = zone_type @ join blank (split_into_sentences t)"
proof -
  have "strip_tags False (render_zone_html sc fk t zone_type tg)
      = escape zone_type @ escape (join blank (split_into_sentences t))"
    using strip_tags_join [of sc fk tg "split_into_sentences t" "''</div>''"]
    by (simp add: render_zone_html_def render_body_def strip_tags_zone_open)
  then show ?thesis
    by (simp add: text_content_def escape_append [symmetric] unescape_escape)
qed

lemma runs_spaces:
  "list_all is_space ws \<Longrightarrow> runs nsp w (ws @ s) = (if ws = [] then runs nsp w s
     else (if w = [] then [] else [w]) @ runs nsp [] s)"
  by (induction ws arbitrary: w) auto

lemma runs_trailing_spaces:
  "list_all is_space ws \<Longrightarrow> runs nsp w (s @ ws) = runs nsp w s"
proof (induction s arbitrary: w)
  case Nil
  then show ?case
    using runs_spaces [of ws w "[]"] by simp
next
  case (Cons c s)
  then show ?case by simp
qed

lemma ws_words_strip: "ws_words (strip t) = ws_words t"
proof -
  have l: "t = takeWhile is_space t @ lstrip t"
    by (simp add: lstrip_def)
  have "list_all is_space (takeWhile is_space t)"
    by (auto simp: list_all_iff dest: set_takeWhileD)
  then have "runs nsp [] (takeWhile is_space t @ lstrip t) = runs nsp [] (lstrip t)"
    by (simp add: runs_spaces)
  then have a: "ws_words t = ws_words (lstrip t)"
    using l by (simp add: ws_words_def)
  have "list_all is_space (rev (takeWhile is_space (rev (lstrip t))))"
    by (auto simp: list_all_iff dest: set_takeWhileD)
  then have "runs nsp [] (rstrip (lstrip t) @ rev (takeWhile is_space (rev (lstrip t))))
      = runs nsp [] (rstrip (lstrip t))"
    by (rule runs_trailing_spaces)
  then have "ws_words (lstrip t) = ws_words (strip t)"
    using rstrip_decomp [of "lstrip t"] by (simp add: ws_words_def strip_def)
  with a show ?thesis by simp
qed

lemma behind_Cons:
  "ps \<noteq> [] \<Longrightarrow> behind cur (cur # ps) = CHR '' '' # join blank ps"
  by (simp add: behind_def join_Cons)

lemma runs_behind:
  "runs nsp w (behind cur (re_split_sentences prev cur s)) = runs nsp w s"
proof (induction prev cur s arbitrary: w rule: re_split_sentences.induct)
  case (1 prev cur)
  then show ?case by (simp add: behind_def)
next
  case (2 prev cur c cs)
  show ?case
  proof (cases "sep_match prev (c # cs)")
    case None
    let ?L = "re_split_sentences (Some c) (cur @ [c]) cs"
    have L: "re_split_sentences prev cur (c # cs) = ?L"
      using None by simp
    have ih: "runs nsp v (behind (cur @ [c]) ?L) = runs nsp v cs" for v
      using "2.IH"(1) [OF None] .
    show ?thesis
      by (simp only: L rest_snoc runs.simps ih)
  next
    case (Some n)
    let ?s = "c # cs"
    let ?L = "re_split_sentences (Some (?s ! (n - 1))) [] (drop n ?s)"
    have L: "re_split_sentences prev cur ?s = cur # ?L"
      using Some by simp
    have ih: "runs nsp v (join blank ?L) = runs nsp v (drop n ?s)" for v
      using "2.IH"(2) [OF Some, of v] by (simp add: behind_def)
    from Some have tw: "takeWhile is_space ?s \<noteq> []" and n: "n = length (takeWhile is_space ?s)"
      by (auto simp: sep_match_eq split: if_splits)
    have dr: "drop n ?s = dropWhile is_space ?s"
      unfolding n by (rule dropWhile_eq_drop [symmetric])
    have "list_all is_space (takeWhile is_space ?s)"
      by (auto simp: list_all_iff dest: set_takeWhileD)
    then have "runs nsp w (takeWhile is_space ?s @ dropWhile is_space ?s)
        = (if w = [] then [] else [w]) @ runs nsp [] (dropWhile is_space ?s)"
      using tw by (simp only: runs_spaces if_False)
    then have rhs: "runs nsp w ?s = (if w = [] then [] else [w]) @ runs nsp [] (drop n ?s)"
      by (simp only: takeWhile_dropWhile_id dr)
    have "is_space (CHR '' '')"
      by (simp add: is_space_def code_def)
    then have "runs nsp w (CHR '' '' # join blank ?L)
        = (if w = [] then [] else [w]) @ runs nsp [] (join blank ?L)"
      by simp
    also have "\<dots> = runs nsp w ?s"
      by (simp only: rhs ih)
    finally have "runs nsp w (CHR '' '' # join blank ?L) = runs nsp w ?s" .
    moreover have "behind cur (cur # ?L) = CHR '' '' # join blank ?L"
      using re_split_sentences_nonempty by (rule behind_Cons)
    ultimately show ?thesis
      by (simp only: L)
  qed
qed

lemma ws_words_rejoin: "ws_words (join blank (split_into_sentences t)) = ws_words t"
proof (cases "strip t = []")
  case True
  have nil: "strip [] = []"
    by (simp add: strip_def rstrip_def lstrip_def)
  have "split_into_sentences t = []"
    using True by (simp add: split_into_sentences_def nil)
  moreover have "ws_words (strip t) = []"
    by (simp add: True ws_words_def)
  ultimately show ?thesis
    using ws_words_strip [of t] by (simp add: ws_words_def)
next
  case False
  let ?L = "re_split_sentences None [] (strip t)"
  have "trimmed (strip t)"
    using False by (rule strip_trimmed_iff)
  then have all: "list_all trimmed ?L"
    by (intro re_split_parts_trimmed) (simp_all add: trimmed_def lookbehind_def)
  have id: "map strip (filter (\<lambda>p. strip p \<noteq> []) ps) = ps" if "list_all trimmed ps" for ps
    using that by (induction ps) (simp_all add: strip_of_trimmed, simp add: trimmed_def)
  have L: "split_into_sentences t = ?L"
    using id [OF all] by (simp add: split_into_sentences_def)
  have "ws_words (join blank ?L) = ws_words (strip t)"
    using runs_behind [of "[]" "[]" None "strip t"] by (simp add: behind_def ws_words_def)
  then show ?thesis
    by (simp only: L ws_words_strip)
qed


lemma escape_char_hd: "escape_char c \<noteq> [] \<and> hd (escape_char c) \<noteq> CHR ''<''"
  by (simp add: escape_char_def)

lemma escape_hd: "tok \<noteq> [] \<Longrightarrow> escape tok \<noteq> [] \<and> hd (escape tok) \<noteq> CHR ''<''"
  using escape_char_hd by (cases tok) (simp_all add: escape_def)

lemma prefix_hd: "prefix p x \<Longrightarrow> p \<noteq> [] \<Longrightarrow> x \<noteq> [] \<and> hd x = hd p"
  by (cases p; cases x) auto

lemma heavy_open_hd: "heavy_open \<noteq> [] \<and> hd heavy_open = CHR ''<''"
  by (simp add: heavy_open_def)

lemma above_open_hd: "above_open \<noteq> [] \<and> hd above_open = CHR ''<''"
  by (simp add: above_open_def)

lemma not_prefix_above: "x \<noteq> [] \<Longrightarrow> hd x \<noteq> CHR ''<'' \<Longrightarrow> \<not> prefix above_open (x @ y)"
  using prefix_hd [of above_open "x @ y"] above_open_hd by auto

lemma not_prefix_above_heavy: "\<not> prefix above_open (heavy_open @ y)"
  by (simp add: above_open_def heavy_open_def dquote_def)

lemma not_prefix_above_Nil: "\<not> prefix above_open []"
  using above_open_hd by simp

lemma not_prefix_heavy_escape: "\<not> prefix heavy_open (escape tok)"
proof (cases "tok = []")
  case True
  then show ?thesis
    using heavy_open_hd by (simp add: escape_def)
next
  case False
  then have "escape tok \<noteq> []" "hd (escape tok) \<noteq> CHR ''<''"
    using escape_hd by simp_all
  then show ?thesis
    using prefix_hd [of heavy_open "escape tok"] heavy_open_hd by auto
qed

lemma count_syllables_alpha_only:
  "count_syllables sc (sub_non_alpha tok) = count_syllables sc tok"
  by (simp add: count_syllables_def sub_non_alpha_def)

lemma render_token_heavy_iff:
  "prefix heavy_open (render_token sc tok)
   = (sub_non_alpha tok \<noteq> [] \<and> 3 \<le> count_syllables sc tok)"
  by (simp add: render_token_def Let_def count_syllables_alpha_only not_prefix_heavy_escape)

lemma not_prefix_above_tokens:
  "\<not> prefix above_open (concat (map (render_token sc) toks))"
proof (induction toks)
  case Nil
  then show ?case
    using above_open_hd by simp
next
  case (Cons tok toks)
  let ?r = "concat (map (render_token sc) toks)"
  show ?case
  proof (cases "sub_non_alpha tok \<noteq> [] \<and> 3 \<le> count_syllables sc (sub_non_alpha tok)")
    case True
    then have "render_token sc tok = heavy_open @ escape tok @ span_close"
      by (simp add: render_token_def Let_def)
    then show ?thesis
      by (simp add: not_prefix_above_heavy)
  next
    case False
    then have rt: "render_token sc tok = escape tok"
      by (auto simp: render_token_def Let_def)
    show ?thesis
    proof (cases "tok = []")
      case True
      then have "render_token sc tok = []"
        using rt by (simp add: escape_def)
      then show ?thesis
        using Cons.IH by simp
    next
      case False
      then have "\<not> prefix above_open (escape tok @ ?r)"
        using escape_hd by (intro not_prefix_above) simp_all
      then show ?thesis
        by (simp add: rt)
    qed
  qed
qed

lemma render_sentence_above_iff:
  "prefix above_open (render_sentence sc fk target s) = (target < fk_grade fk s)"
  by (simp add: render_sentence_def Let_def sentence_content_def not_prefix_above_tokens)

lemma layers_example:
  "render_sentence (\<lambda>w. 0) (\<lambda>t. Inr 9 :: unit + rat) 3 ''We go.''
     = above_open @ ''We go.'' @ span_close
   \<and> render_sentence (\<lambda>w. 0) (\<lambda>t. Inr 1 :: unit + rat) 3 ''Elephants go.''
     = heavy_open @ ''Elephants'' @ span_close @ '' go.''"
  by code_simp

text \<open>
  Claim C5. With the tags removed and the character references decoded, the output reads
  as the zone label followed by the sentences of the zone text, joined by single spaces:
  between the label and the closing tag stands exactly that text. Its words, as
  whitespace separates them, are the words of the zone text, in the same order.
\<close>

theorem annotator_round_trip:
  "text_content (render_zone_html syllapy_count flesch_kincaid_grade txt zone_type target)
     = zone_type @ join '' '' (split_into_sentences txt)
   \<and> text_content (render_body syllapy_count flesch_kincaid_grade txt target)
     = join '' '' (split_into_sentences txt)
   \<and> ws_words (text_content (render_body syllapy_count flesch_kincaid_grade txt target))
     = ws_words txt"
  by (simp add: text_content_zone text_content_body ws_words_rejoin)

lemma ws_runs_nonspace_run:
  assumes "a \<noteq> []" and "list_all nsp a" and "s = [] \<or> is_space (hd s)"
  shows "ws_runs (a @ s) = a # ws_runs s"
proof -
  obtain x a' where a: "a = x # a'"
    using assms(1) by (cases a) auto
  have all: "\<forall>y\<in>set a. nsp y"
    using assms(2) by (simp add: list_all_iff)
  have s0: "takeWhile nsp s = [] \<and> dropWhile nsp s = s"
    using assms(3) by (cases s) auto
  have tw: "takeWhile nsp (a @ s) = a"
    using all s0 by (simp add: takeWhile_append2)
  have dw: "dropWhile nsp (a @ s) = s"
    using all s0 by (simp add: dropWhile_append2)
  have "ws_runs (x # (a' @ s))
      = takeWhile nsp (x # (a' @ s)) # ws_runs (dropWhile nsp (x # (a' @ s)))"
    using all a by (simp del: takeWhile.simps dropWhile.simps)
  then show ?thesis
    using tw dw by (simp only: a append_Cons)
qed

lemma ws_runs_nonspace_only: "list_all nsp a \<Longrightarrow> ws_runs a = (if a = [] then [] else [a])"
  using ws_runs_nonspace_run [of a "[]"] by auto

lemma re_split_ws_runs:
  "list_all nsp cur \<Longrightarrow> filter (\<lambda>t. t \<noteq> []) (re_split_ws cur s) = ws_runs (cur @ s)"
proof (induction cur s rule: re_split_ws.induct)
  case (1 cur)
  then show ?case
    by (simp add: ws_runs_nonspace_only)
next
  case (2 cur c cs)
  show ?case
  proof (cases "is_space c")
    case True
    let ?W = "takeWhile is_space (c # cs)" and ?r = "dropWhile is_space (c # cs)"
    have ih: "filter (\<lambda>t. t \<noteq> []) (re_split_ws [] ?r) = ws_runs ?r"
      using "2.IH"(1) [OF True] by simp
    have W: "?W \<noteq> []"
      using True by simp
    have step: "ws_runs (c # cs) = ?W # ws_runs ?r"
      using True by (simp del: takeWhile.simps dropWhile.simps)
    have "filter (\<lambda>t. t \<noteq> []) (re_split_ws cur (c # cs))
        = (if cur = [] then [] else [cur]) @ ?W # ws_runs ?r"
      using True W ih by (simp del: takeWhile.simps dropWhile.simps)
    also have "\<dots> = ws_runs (cur @ c # cs)"
    proof (cases "cur = []")
      case True
      then show ?thesis
        by (simp add: step del: takeWhile.simps dropWhile.simps ws_runs.simps)
    next
      case False
      then have "ws_runs (cur @ c # cs) = cur # ws_runs (c # cs)"
        using "2.prems" True by (intro ws_runs_nonspace_run) simp_all
      then show ?thesis
        using False by (simp add: step del: takeWhile.simps dropWhile.simps ws_runs.simps)
    qed
    finally show ?thesis .
  next
    case False
    then have "filter (\<lambda>t. t \<noteq> []) (re_split_ws (cur @ [c]) cs) = ws_runs ((cur @ [c]) @ cs)"
      using "2.prems" by (intro "2.IH"(2)) simp_all
    then show ?thesis
      using False by simp
  qed
qed

lemma render_token_Nil: "render_token sc [] = []"
  by (simp add: render_token_def sub_non_alpha_def escape_def)

lemma concat_map_drop_Nil: "f [] = [] \<Longrightarrow> concat (map f (filter (\<lambda>t. t \<noteq> []) ts)) = concat (map f ts)"
  by (induction ts) auto

lemma render_token_mark:
  "render_token sc tok = mark heavy_open (heavy sc tok) (escape tok)"
  by (simp add: render_token_def mark_def heavy_def Let_def count_syllables_alpha_only
      sub_non_alpha_eq_Nil span_close_def)

lemma sentence_content_runs:
  "sentence_content sc s
   = concat (map (\<lambda>run. mark heavy_open (heavy sc run) (escape run)) (ws_runs s))"
proof -
  have "concat (map (render_token sc) (filter (\<lambda>t. t \<noteq> []) (re_split_ws [] s)))
      = concat (map (render_token sc) (re_split_ws [] s))"
    using render_token_Nil by (rule concat_map_drop_Nil)
  moreover have "filter (\<lambda>t. t \<noteq> []) (re_split_ws [] s) = ws_runs s"
    using re_split_ws_runs [of "[]" s] by simp
  moreover have "render_token sc = (\<lambda>run. mark heavy_open (heavy sc run) (escape run))"
    by (rule ext) (rule render_token_mark)
  ultimately show ?thesis
    by (simp add: sentence_content_def)
qed

lemma ws_runs_words: "filter (list_ex nsp) (ws_runs s) = ws_words s"
proof (induction s rule: ws_runs.induct)
  case 1
  then show ?case by (simp add: ws_words_def)
next
  case (2 c cs)
  show ?case
  proof (cases "is_space c")
    case True
    let ?W = "takeWhile is_space (c # cs)" and ?r = "dropWhile is_space (c # cs)"
    have ih: "filter (list_ex nsp) (ws_runs ?r) = ws_words ?r"
      using "2.IH"(1) [OF True] .
    have allW: "list_all is_space ?W"
      by (auto simp: list_all_iff dest: set_takeWhileD)
    then have drop: "\<not> list_ex nsp ?W"
      by (simp add: list_all_iff list_ex_iff)
    have W: "?W \<noteq> []"
      using True by simp
    have "runs nsp [] (c # cs) = runs nsp [] ?r"
      using runs_spaces [OF allW, of "[]" ?r] W
      by (simp del: takeWhile.simps dropWhile.simps runs.simps)
    then have "ws_words (c # cs) = ws_words ?r"
      by (simp only: ws_words_def)
    moreover have "ws_runs (c # cs) = ?W # ws_runs ?r"
      using True by (simp del: takeWhile.simps dropWhile.simps)
    ultimately show ?thesis
      using drop ih by (simp del: takeWhile.simps dropWhile.simps)
  next
    case False
    let ?T = "takeWhile nsp (c # cs)" and ?r = "dropWhile nsp (c # cs)"
    have ih: "filter (list_ex nsp) (ws_runs ?r) = ws_words ?r"
      using "2.IH"(2) [OF False] .
    have T: "?T \<noteq> []"
      using False by simp
    have keep: "list_ex nsp ?T"
      using False by simp
    have "runs nsp [] (c # cs)
        = (if [] @ ?T = [] then [] else [[] @ ?T]) @ runs nsp [] ?r"
      by (rule runs_split)
    then have "ws_words (c # cs) = ?T # ws_words ?r"
      using T by (simp add: ws_words_def del: takeWhile.simps dropWhile.simps runs.simps)
    moreover have "ws_runs (c # cs) = ?T # ws_runs ?r"
      using False by (simp del: takeWhile.simps dropWhile.simps)
    ultimately show ?thesis
      using keep ih by (simp del: takeWhile.simps dropWhile.simps)
  qed
qed

lemma concat_ws_runs: "concat (ws_runs s) = s"
  by (induction s rule: ws_runs.induct) (simp_all del: takeWhile.simps dropWhile.simps)

lemma render_zone_html_marks:
  "render_zone_html sc fk txt zone_type target
   = zone_open zone_type
     @ join '' ''
         (map (\<lambda>sentence. mark above_open (target < fk_grade fk sentence)
                 (concat (map (\<lambda>run. mark heavy_open (heavy sc run) (escape run))
                            (ws_runs sentence))))
              (split_into_sentences txt))
     @ ''</div>''"
proof -
  have "render_sentence sc fk target
      = (\<lambda>sentence. mark above_open (target < fk_grade fk sentence)
                 (concat (map (\<lambda>run. mark heavy_open (heavy sc run) (escape run))
                            (ws_runs sentence))))"
    by (rule ext) (simp add: render_sentence_def mark_def span_close_def sentence_content_runs)
  then show ?thesis
    by (simp add: render_zone_html_def render_body_def)
qed

lemma alpha_not_space: "is_alpha c \<Longrightarrow> \<not> is_space c"
  by (auto simp: is_alpha_def is_upper_def is_space_def)

lemma heavy_not_space_run: "heavy sc r \<Longrightarrow> list_ex nsp r"
  using alpha_not_space by (auto simp: heavy_def list_ex_iff)

lemma heavy_runs_words: "filter (heavy sc) (ws_runs s) = filter (heavy sc) (ws_words s)"
proof -
  have "filter (heavy sc) (filter (list_ex nsp) (ws_runs s)) = filter (heavy sc) (ws_runs s)"
    using heavy_not_space_run by (auto intro: filter_cong)
  then show ?thesis
    by (simp only: ws_runs_words)
qed

lemma mark_heavy_prefix:
  "prefix heavy_open (mark heavy_open (heavy sc run) (escape run)) = heavy sc run"
  using render_token_heavy_iff [of sc run]
  by (simp add: render_token_mark heavy_def sub_non_alpha_eq_Nil)

lemma mark_above_prefix:
  "prefix above_open
     (mark above_open (target < fk_grade fk s)
        (concat (map (\<lambda>run. mark heavy_open (heavy sc run) (escape run)) (ws_runs s))))
   = (target < fk_grade fk s)"
proof -
  have "render_sentence sc fk target s
      = mark above_open (target < fk_grade fk s)
          (concat (map (\<lambda>run. mark heavy_open (heavy sc run) (escape run)) (ws_runs s)))"
    by (simp add: render_sentence_def mark_def span_close_def sentence_content_runs)
  then show ?thesis
    using render_sentence_above_iff [of sc fk target s] by (simp only:)
qed

text \<open>
  Claim C6. The output for a zone is the frame (label and rule) around the pieces of the
  sentences of the zone text, joined by single spaces. The piece of a sentence is made of
  the runs of the sentence, each escaped: its maximal runs of whitespace and its maximal
  runs without whitespace, which together are the sentence. The piece of a sentence is
  wrapped in the above-target element exactly when the grade of the sentence is greater
  than the target, and a run is wrapped in the heavy element exactly when it has a letter
  and its syllable estimate is at least 3; the heavy runs are runs without whitespace.
  Whether a piece is wrapped shows at its start. What is wrapped as heavy depends on
  neither grade nor target, and the above-target wrapping does not depend on the
  syllables.
\<close>

theorem annotator_layers:
  "render_zone_html syllapy_count flesch_kincaid_grade txt zone_type target
     = zone_open zone_type
       @ join '' ''
           (map (\<lambda>s. mark above_open (target < fk_grade flesch_kincaid_grade s)
                   (concat (map (\<lambda>run. mark heavy_open (heavy syllapy_count run) (escape run))
                              (ws_runs s))))
                (split_into_sentences txt))
       @ ''</div>''
   \<and> concat (ws_runs sentence) = sentence
   \<and> filter (list_ex nsp) (ws_runs sentence) = ws_words sentence
   \<and> filter (heavy syllapy_count) (ws_runs sentence)
     = filter (heavy syllapy_count) (ws_words sentence)
   \<and> prefix above_open
       (mark above_open (target < fk_grade flesch_kincaid_grade sentence)
          (concat (map (\<lambda>run. mark heavy_open (heavy syllapy_count run) (escape run))
                     (ws_runs sentence))))
     = (target < fk_grade flesch_kincaid_grade sentence)
   \<and> prefix heavy_open (mark heavy_open (heavy syllapy_count tok) (escape tok))
     = heavy syllapy_count tok
   \<and> prefix above_open (render_sentence syllapy_count flesch_kincaid_grade target sentence)
     = (target < fk_grade flesch_kincaid_grade sentence)
   \<and> prefix heavy_open (render_token syllapy_count tok)
     = (sub_non_alpha tok \<noteq> [] \<and> 3 \<le> count_syllables syllapy_count tok)"
proof (intro conjI)
  show "render_zone_html syllapy_count flesch_kincaid_grade txt zone_type target
     = zone_open zone_type
       @ join '' ''
           (map (\<lambda>s. mark above_open (target < fk_grade flesch_kincaid_grade s)
                   (concat (map (\<lambda>run. mark heavy_open (heavy syllapy_count run) (escape run))
                              (ws_runs s))))
                (split_into_sentences txt))
       @ ''</div>''"
    by (rule render_zone_html_marks)
  show "concat (ws_runs sentence) = sentence"
    by (rule concat_ws_runs)
  show "filter (list_ex nsp) (ws_runs sentence) = ws_words sentence"
    by (rule ws_runs_words)
  show "filter (heavy syllapy_count) (ws_runs sentence)
      = filter (heavy syllapy_count) (ws_words sentence)"
    by (rule heavy_runs_words)
  show "prefix above_open
       (mark above_open (target < fk_grade flesch_kincaid_grade sentence)
          (concat (map (\<lambda>run. mark heavy_open (heavy syllapy_count run) (escape run))
                     (ws_runs sentence))))
     = (target < fk_grade flesch_kincaid_grade sentence)"
    by (rule mark_above_prefix)
  show "prefix heavy_open (mark heavy_open (heavy syllapy_count tok) (escape tok))
      = heavy syllapy_count tok"
    by (rule mark_heavy_prefix)
  show "prefix above_open (render_sentence syllapy_count flesch_kincaid_grade target sentence)
      = (target < fk_grade flesch_kincaid_grade sentence)"
    by (rule render_sentence_above_iff)
  show "prefix heavy_open (render_token syllapy_count tok)
      = (sub_non_alpha tok \<noteq> [] \<and> 3 \<le> count_syllables syllapy_count tok)"
    by (rule render_token_heavy_iff)
qed

section \<open>Properties of the zone summary\<close>

text \<open>
  Claim C7, as stated, fails: in \<open>Solve 3x now.\<close> the alphabetic runs are \<open>Solve\<close>, \<open>x\<close>
  and \<open>now\<close>, but the pattern asks for a word boundary on both sides of a match, and
  there is none between \<open>3\<close> and \<open>x\<close>: the summary counts two words.
\<close>

theorem zone_summary_words_counterexample:
  "row_words (zone_summary_row (\<lambda>_. Inr 0 :: unit + rat)
       \<lparr>zone_text = ''Solve 3x now.'', zone_label = ''Math Problem''\<rparr> 3) = 2
   \<and> length (alpha_runs ''Solve 3x now.'') = 3"
  by code_simp

text \<open>
  Claim C7, amended. The word count of the summary is the number of maximal runs of word
  characters that consist of letters \<open>[a-zA-Z]\<close> only.
\<close>

theorem zone_summary_words_letter_words:
  "row_words (zone_summary_row flesch_kincaid_grade z target) = length (letter_words (zone_text z))"
  using findall_words_runs [of None "zone_text z"]
  by (simp add: zone_summary_row_def Let_def letter_words_def prev_word_def)

section \<open>Properties of the registry\<close>

lemma strip_all_space: "list_all is_space s \<Longrightarrow> strip s = []"
  by (auto simp: strip_def lstrip_def rstrip_def list_all_iff dest: set_dropWhileD)

text \<open>
  Claim C9. When the submitted text is blank (empty, or whitespace only), the handler leaves the
  whole session state as it was, so no zone is appended, and answers with the warning
  message.
\<close>

theorem btn_add_blank_rejected:
  "list_all is_space zone_text_input \<Longrightarrow>
     btn_add st zone_text_input zone_type_sel = (st, Warning add_warning)
     \<and> zones (fst (btn_add st zone_text_input zone_type_sel)) = zones st"
  by (simp add: btn_add_def strip_all_space)

theorem btn_add_blank_rejected_witness:
  "list_all is_space [CHR '' '', CHR 0x09, CHR 0x0A]
   \<and> btn_add \<lparr>zones = [\<lparr>zone_text = ''One fish.'', zone_label = ''Narration''\<rparr>],
              pdf_text = [], last_fname = [], zone_key = 1\<rparr>
        [CHR '' '', CHR 0x09, CHR 0x0A] ''Dialogue''
     = (\<lparr>zones = [\<lparr>zone_text = ''One fish.'', zone_label = ''Narration''\<rparr>],
          pdf_text = [], last_fname = [], zone_key = 1\<rparr>, Warning add_warning)"
proof -
  have blank: "list_all is_space [CHR '' '', CHR 0x09, CHR 0x0A]"
    by (simp add: is_space_def code_def)
  show ?thesis
    using blank btn_add_blank_rejected [OF blank] by simp
qed

text \<open>
  Claim C10. Deleting at a valid position \<open>i\<close> of a registry of \<open>n\<close> zones succeeds and
  leaves \<open>n - 1\<close> zones: the zones before \<open>i\<close> keep their positions, the zones after it
  move one position down, in the same order.
\<close>

theorem btn_del_keeps_order:
  "i < length (zones st) \<Longrightarrow>
     \<exists>st'. btn_del st i = Inr (st', Rerun)
       \<and> length (zones st') = length (zones st) - 1
       \<and> zones st' = take i (zones st) @ drop (Suc i) (zones st)
       \<and> (\<forall>j. j < i \<longrightarrow> zones st' ! j = zones st ! j)
       \<and> (\<forall>j. i \<le> j \<and> j < length (zones st) - 1 \<longrightarrow> zones st' ! j = zones st ! Suc j)
       \<and> subseq (zones st') (zones st)"
proof -
  assume i: "i < length (zones st)"
  let ?zs = "take i (zones st) @ drop (Suc i) (zones st)"
  have run: "btn_del st i = Inr (st\<lparr>zones := ?zs\<rparr>, Rerun)"
    using i by (simp add: btn_del_def pop_def)
  have len: "length ?zs = length (zones st) - 1"
    using i by simp
  have before: "\<forall>j. j < i \<longrightarrow> ?zs ! j = zones st ! j"
    using i by (simp add: nth_append)
  have after: "\<forall>j. i \<le> j \<and> j < length (zones st) - 1 \<longrightarrow> ?zs ! j = zones st ! Suc j"
    using i by (auto simp: nth_append min_def)
  have "subseq (drop (Suc i) (zones st)) (drop i (zones st))"
    using i by (simp add: Cons_nth_drop_Suc [symmetric] list_emb_Cons)
  then have "subseq ?zs (take i (zones st) @ drop i (zones st))"
    by (intro list_emb_append_mono) simp_all
  then have sub: "subseq ?zs (zones st)"
    by simp
  show ?thesis
    using run len before after sub by simp
qed

theorem btn_del_keeps_order_witness:
  "btn_del \<lparr>zones = [\<lparr>zone_text = ''A cat.'', zone_label = ''Dialogue''\<rparr>,
                      \<lparr>zone_text = ''Two plus two.'', zone_label = ''Math Problem''\<rparr>,
                      \<lparr>zone_text = ''The end.'', zone_label = ''Narration''\<rparr>],
            pdf_text = [], last_fname = [], zone_key = 3\<rparr> 1
   = Inr (\<lparr>zones = [\<lparr>zone_text = ''A cat.'', zone_label = ''Dialogue''\<rparr>,
                     \<lparr>zone_text = ''The end.'', zone_label = ''Narration''\<rparr>],
           pdf_text = [], last_fname = [], zone_key = 3\<rparr>, Rerun)"
  using btn_del_keeps_order
    [of 1 "\<lparr>zones = [\<lparr>zone_text = ''A cat.'', zone_label = ''Dialogue''\<rparr>,
                      \<lparr>zone_text = ''Two plus two.'', zone_label = ''Math Problem''\<rparr>,
                      \<lparr>zone_text = ''The end.'', zone_label = ''Narration''\<rparr>],
            pdf_text = [], last_fname = [], zone_key = 3\<rparr>"]
  by (auto simp: btn_del_def pop_def)

end
